theory Spec2Isabelle
  imports Main
begin

section \<open>The vector pool of \<^verbatim>\<open>src/utils/Vector/VectorPool.ts\<close>\<close>

text \<open>
  The pool keeps an array of references to \<^verbatim>\<open>Vector2D\<close> objects and a counter of the
  active ones. Several array positions may hold the same object, and the operations
  mutate the objects in place, so the model has an explicit store: an object is an
  address (\<open>ref\<close>), the store maps every address to the object's fields, and
  \<open>next_ref\<close> is the first address that no \<^verbatim>\<open>new Vector2D(...)\<close> has handed out yet.

  A TypeScript \<^verbatim>\<open>number\<close> that counts or indexes is an \<open>int\<close> here (the integers
  among the numbers; fractions and NaN are outside the model). The components of a
  vector are only stored and copied by the pool, never computed with, so their type
  is a parameter \<open>'a\<close> with a zero (the default arguments of \<^verbatim>\<open>new\<close>).
\<close>

subsection \<open>Vector2D\<close>

type_synonym ref = nat

record 'a vector2d =
  vx :: 'a
  vy :: 'a
  pool_index :: "int option"

text \<open>
  Modelled from the spec: the class \<^verbatim>\<open>Vector2D\<close> is imported from \<^verbatim>\<open>"./"\<close> and its file
  is not among the sources. The constructor \<^verbatim>\<open>new Vector2D(x, y, i)\<close> makes a value with
  components \<open>x\<close>, \<open>y\<close> and the optional back-reference \<open>slotIndex\<close> (the field
  \<^verbatim>\<open>_pool_index\<close> that \<^verbatim>\<open>clear_index\<close> assigns).
\<close>

definition Vector2D :: "'a \<Rightarrow> 'a \<Rightarrow> int option \<Rightarrow> 'a vector2d" where
  "Vector2D x y i = \<lparr>vx = x, vy = y, pool_index = i\<rparr>"

text \<open>
  Modelled from the spec: \<^verbatim>\<open>set(x, y)\<close> is component assignment; the pool depends on
  nothing else of it, and it returns the vector itself (the pool returns its result).
\<close>

definition vec_set :: "'a vector2d \<Rightarrow> 'a \<Rightarrow> 'a \<Rightarrow> 'a vector2d" where
  "vec_set v x y = v\<lparr>vx := x, vy := y\<rparr>"

text \<open>
  Modelled from the spec: \<^verbatim>\<open>copy(source)\<close> copies the components of another vector,
  not its identity.
\<close>

definition vec_copy :: "'a vector2d \<Rightarrow> 'a vector2d \<Rightarrow> 'a vector2d" where
  "vec_copy v source = v\<lparr>vx := vx source, vy := vy source\<rparr>"

text \<open>
  Modelled from the spec: \<^verbatim>\<open>fromAngle(angle)\<close> initialises the vector to the unit vector
  at \<open>angle\<close>, that is to \<open>(cos angle, sin angle)\<close>. The two library functions are
  parameters \<open>cs\<close> and \<open>sn\<close>.
\<close>

definition vec_fromAngle :: "('a \<Rightarrow> 'a) \<Rightarrow> ('a \<Rightarrow> 'a) \<Rightarrow> 'a vector2d \<Rightarrow> 'a \<Rightarrow> 'a vector2d" where
  "vec_fromAngle cs sn v angle = v\<lparr>vx := cs angle, vy := sn angle\<rparr>"

text \<open>
  Modelled from the spec: \<^verbatim>\<open>fromObservablePoint(point)\<close> reads the numeric \<open>x\<close> and \<open>y\<close>
  of an external point, here the pair \<open>(px, py)\<close>.
\<close>

definition vec_fromObservablePoint :: "'a vector2d \<Rightarrow> 'a \<times> 'a \<Rightarrow> 'a vector2d" where
  "vec_fromObservablePoint v point = v\<lparr>vx := fst point, vy := snd point\<rparr>"

subsection \<open>The pool state\<close>

text \<open>
  \<open>pool\<close> is the array \<^verbatim>\<open>_pool\<close>: an element is a reference, or \<open>None\<close> for
  \<^verbatim>\<open>undefined\<close> (the holes of \<^verbatim>\<open>new Array(n)\<close> before the constructor fills them).
  \<open>count\<close> is \<^verbatim>\<open>_count\<close>, which the getter \<^verbatim>\<open>count\<close> returns.
\<close>

record 'a vector_pool =
  heap :: "ref \<Rightarrow> 'a vector2d"
  next_ref :: ref
  pool :: "ref option list"
  count :: int

datatype pool_error = IndexOutOfBound | PoolAlreadyCleared | TypeError

text \<open>The getter \<^verbatim>\<open>size\<close>: the length of the array.\<close>

definition pool_size :: "'a vector_pool \<Rightarrow> nat" where
  "pool_size s = length (pool s)"

text \<open>
  Reading \<^verbatim>\<open>this._pool[i]\<close>: \<^verbatim>\<open>undefined\<close> outside the array and at a hole.
\<close>

definition arr_get :: "ref option list \<Rightarrow> int \<Rightarrow> ref option" where
  "arr_get xs i = (if 0 \<le> i \<and> i < int (length xs) then xs ! nat i else None)"

text \<open>The object that position \<open>i\<close> of the array refers to, if any.\<close>

definition slot_at :: "'a vector_pool \<Rightarrow> int \<Rightarrow> 'a vector2d option" where
  "slot_at s i = (case arr_get (pool s) i of None \<Rightarrow> None | Some r \<Rightarrow> Some (heap s r))"

text \<open>\<^verbatim>\<open>new Vector2D(...)\<close>: a fresh object in the store.\<close>

definition alloc :: "'a vector_pool \<Rightarrow> 'a vector2d \<Rightarrow> ref \<times> 'a vector_pool" where
  "alloc s v = (next_ref s, s\<lparr>heap := (heap s)(next_ref s := v), next_ref := Suc (next_ref s)\<rparr>)"

subsection \<open>The operations\<close>

text \<open>
  The constructor: \<^verbatim>\<open>new Array<Vector2D>(initialPoolSize)\<close>, then the loop
  \<^verbatim>\<open>for (let i = 0; i < initialPoolSize; i++) this._pool[i] = new Vector2D(0, 0, i)\<close>.
  The size is a natural number: \<^verbatim>\<open>new Array(n)\<close> accepts no other length. The store of a
  new pool holds no object of the pool yet (\<open>next_ref = 0\<close>).
\<close>

function ctor_loop :: "nat \<Rightarrow> nat \<Rightarrow> ('a::zero) vector_pool \<Rightarrow> 'a vector_pool" where
  "ctor_loop i n s =
     (if i < n
      then ctor_loop (Suc i) n
             (case alloc s (Vector2D 0 0 (Some (int i))) of
                (r, s') \<Rightarrow> s'\<lparr>pool := (pool s')[i := Some r]\<rparr>)
      else s)"
  by pat_completeness auto
termination
  by (relation "measure (\<lambda>(i, n, s). n - i)") auto

declare ctor_loop.simps [simp del]

definition constructor :: "nat \<Rightarrow> ('a::zero) vector_pool" where
  "constructor initialPoolSize =
     ctor_loop 0 initialPoolSize
       \<lparr>heap = (\<lambda>_. Vector2D 0 0 None), next_ref = 0,
        pool = replicate initialPoolSize None, count = 0\<rparr>"

text \<open>
  \<^verbatim>\<open>new(x, y)\<close>: count first, push a fresh vector when the array is too short, then
  \<^verbatim>\<open>this._pool[this.count - 1].set(x, y)\<close>, which throws a TypeError when that element is
  \<^verbatim>\<open>undefined\<close>. The result is the returned reference or the error, and the state the
  call leaves.
\<close>

definition new :: "'a vector_pool \<Rightarrow> 'a \<Rightarrow> 'a \<Rightarrow> (pool_error + ref) \<times> 'a vector_pool" where
  "new s x y =
     (let s1 = s\<lparr>count := count s + 1\<rparr>;
          s2 = (if int (pool_size s1) < count s1
                then (case alloc s1 (Vector2D x y (Some (count s1 - 1))) of
                        (r, s') \<Rightarrow> s'\<lparr>pool := pool s' @ [Some r]\<rparr>)
                else s1)
      in case arr_get (pool s2) (count s2 - 1) of
           None \<Rightarrow> (Inl TypeError, s2)
         | Some r \<Rightarrow> (Inr r, s2\<lparr>heap := (heap s2)(r := vec_set (heap s2 r) x y)\<rparr>))"

text \<open>
  \<^verbatim>\<open>clone(vector)\<close> is \<^verbatim>\<open>this.new().copy(vector)\<close>, with the defaults \<open>x = 0\<close>, \<open>y = 0\<close>
  of \<^verbatim>\<open>new\<close>. The argument is a reference to an object of the store, and \<^verbatim>\<open>copy\<close> reads
  it after \<^verbatim>\<open>new\<close> has run.
\<close>

definition clone :: "('a::zero) vector_pool \<Rightarrow> ref \<Rightarrow> (pool_error + ref) \<times> 'a vector_pool" where
  "clone s vector =
     (case new s 0 0 of
        (Inl e, s1) \<Rightarrow> (Inl e, s1)
      | (Inr r, s1) \<Rightarrow> (Inr r, s1\<lparr>heap := (heap s1)(r := vec_copy (heap s1 r) (heap s1 vector))\<rparr>))"

text \<open>\<^verbatim>\<open>fromAngle(angle)\<close> is \<^verbatim>\<open>this.new().fromAngle(angle)\<close>.\<close>

definition fromAngle ::
  "('a \<Rightarrow> 'a) \<Rightarrow> ('a \<Rightarrow> 'a) \<Rightarrow> ('a::zero) vector_pool \<Rightarrow> 'a \<Rightarrow> (pool_error + ref) \<times> 'a vector_pool" where
  "fromAngle cs sn s angle =
     (case new s 0 0 of
        (Inl e, s1) \<Rightarrow> (Inl e, s1)
      | (Inr r, s1) \<Rightarrow> (Inr r, s1\<lparr>heap := (heap s1)(r := vec_fromAngle cs sn (heap s1 r) angle)\<rparr>))"

text \<open>\<^verbatim>\<open>fromObservablePoint(point)\<close> is \<^verbatim>\<open>this.new().fromObservablePoint(point)\<close>.\<close>

definition fromObservablePoint ::
  "('a::zero) vector_pool \<Rightarrow> 'a \<times> 'a \<Rightarrow> (pool_error + ref) \<times> 'a vector_pool" where
  "fromObservablePoint s point =
     (case new s 0 0 of
        (Inl e, s1) \<Rightarrow> (Inl e, s1)
      | (Inr r, s1) \<Rightarrow>
          (Inr r, s1\<lparr>heap := (heap s1)(r := vec_fromObservablePoint (heap s1 r) point)\<rparr>))"

text \<open>\<^verbatim>\<open>clear()\<close>: \<^verbatim>\<open>this._count = 0\<close>.\<close>

definition clear :: "'a vector_pool \<Rightarrow> 'a vector_pool" where
  "clear s = s\<lparr>count := 0\<rparr>"

text \<open>
  \<^verbatim>\<open>clear_index(index)\<close>, statement by statement. The result is the thrown error, if
  any, and the state the call leaves. In the branch \<^verbatim>\<open>index + 1 < this._count\<close> the
  first and the third statement write a field of \<^verbatim>\<open>this._pool[index]\<close> and throw a
  TypeError when that element is \<^verbatim>\<open>undefined\<close>; the second one stores whatever
  \<^verbatim>\<open>this._pool[this._count-1]\<close> is.
\<close>

definition clear_index :: "'a vector_pool \<Rightarrow> int \<Rightarrow> pool_error option \<times> 'a vector_pool" where
  "clear_index s index =
     (if index < 0 \<or> index \<ge> count s then (Some IndexOutOfBound, s)
      else if count s = 0 then (Some PoolAlreadyCleared, s)
      else if index + 1 < count s then
        (case arr_get (pool s) index of
           None \<Rightarrow> (Some TypeError, s)
         | Some r0 \<Rightarrow>
             (let s1 = s\<lparr>heap := (heap s)(r0 := (heap s r0)\<lparr>pool_index := None\<rparr>)\<rparr>;
                  s2 = s1\<lparr>pool := (pool s1)[nat index := arr_get (pool s1) (count s1 - 1)]\<rparr>
              in case arr_get (pool s2) index of
                   None \<Rightarrow> (Some TypeError, s2)
                 | Some r1 \<Rightarrow>
                     (None, s2\<lparr>heap := (heap s2)(r1 := (heap s2 r1)\<lparr>pool_index := Some index\<rparr>),
                               count := count s2 - 1\<rparr>)))
      else (None, s\<lparr>count := count s - 1\<rparr>))"

subsection \<open>Sequences of operations\<close>

text \<open>
  A caller's sequence of \<^verbatim>\<open>new\<close> calls, one per pair of arguments; the returned
  references are dropped.
\<close>

fun new_seq :: "'a vector_pool \<Rightarrow> ('a \<times> 'a) list \<Rightarrow> 'a vector_pool" where
  "new_seq s [] = s"
| "new_seq s (p # ps) = new_seq (snd (new s (fst p) (snd p))) ps"

text \<open>
  The calls a driver can make on a pool, and the state each one leaves (whether it
  returns or throws). \<open>run\<close> makes the calls of a list from left to right.
\<close>

datatype 'a pool_op =
    New 'a 'a
  | Clone ref
  | FromAngle 'a
  | FromObservablePoint "'a \<times> 'a"
  | Clear
  | ClearIndex int

fun exec :: "('a \<Rightarrow> 'a) \<Rightarrow> ('a \<Rightarrow> 'a) \<Rightarrow> ('a::zero) vector_pool \<Rightarrow> 'a pool_op \<Rightarrow> 'a vector_pool" where
  "exec cs sn s (New x y) = snd (new s x y)"
| "exec cs sn s (Clone vector) = snd (clone s vector)"
| "exec cs sn s (FromAngle angle) = snd (fromAngle cs sn s angle)"
| "exec cs sn s (FromObservablePoint point) = snd (fromObservablePoint s point)"
| "exec cs sn s Clear = clear s"
| "exec cs sn s (ClearIndex index) = snd (clear_index s index)"

fun run :: "('a \<Rightarrow> 'a) \<Rightarrow> ('a \<Rightarrow> 'a) \<Rightarrow> ('a::zero) vector_pool \<Rightarrow> 'a pool_op list \<Rightarrow> 'a vector_pool" where
  "run cs sn s [] = s"
| "run cs sn s (op # ops) = run cs sn (exec cs sn s op) ops"

subsection \<open>Invariants\<close>

text \<open>
  The counter is within the array, and the array has no hole: what every state that
  the constructor and the operations produce satisfies.
\<close>

definition pool_wf :: "'a vector_pool \<Rightarrow> bool" where
  "pool_wf s \<longleftrightarrow>
     0 \<le> count s \<and> count s \<le> int (length (pool s)) \<and> list_all (\<lambda>e. e \<noteq> None) (pool s)"

text \<open>
  Position \<open>i\<close> of the array holds an allocated object whose \<^verbatim>\<open>_pool_index\<close> is \<open>i\<close>.
\<close>

definition slot_indexed :: "'a vector_pool \<Rightarrow> nat \<Rightarrow> bool" where
  "slot_indexed s i =
     (case pool s ! i of
        None \<Rightarrow> False
      | Some r \<Rightarrow> r < next_ref s \<and> pool_index (heap s r) = Some (int i))"

text \<open>
  Every position of the array, active or not, holds an object that carries its own
  position; the counter is within the array.
\<close>

definition slots_indexed :: "'a vector_pool \<Rightarrow> bool" where
  "slots_indexed s \<longleftrightarrow>
     0 \<le> count s \<and> count s \<le> int (length (pool s)) \<and>
     list_all (slot_indexed s) [0..<length (pool s)]"

text \<open>The \<^verbatim>\<open>_pool_index\<close> of the object at position \<open>i\<close>, read through the array.\<close>

definition slot_index :: "'a vector_pool \<Rightarrow> int \<Rightarrow> int option option" where
  "slot_index s i = map_option pool_index (slot_at s i)"

text \<open>The counter is within the array: \<open>0 \<le> count \<le> size\<close>.\<close>

definition count_ok :: "'a vector_pool \<Rightarrow> bool" where
  "count_ok s \<longleftrightarrow> 0 \<le> count s \<and> count s \<le> int (pool_size s)"

subsection \<open>A driver's scenario\<close>

text \<open>
  The states of one concrete run, with integer components: \<^verbatim>\<open>new VectorPool(2)\<close>, then
  \<^verbatim>\<open>new(1, 1)\<close> and \<^verbatim>\<open>new(2, 2)\<close>; then \<^verbatim>\<open>clear_index(0)\<close>; then \<^verbatim>\<open>new(3, 3)\<close>.
\<close>

definition pool2_two_live :: "int vector_pool" where
  "pool2_two_live = new_seq (constructor 2) [(1, 1), (2, 2)]"

definition pool2_released :: "int vector_pool" where
  "pool2_released = snd (clear_index pool2_two_live 0)"

definition pool2_realloc :: "int vector_pool" where
  "pool2_realloc = snd (new pool2_released 3 3)"

section \<open>Auxiliary facts\<close>

subsection \<open>The constructor in closed form\<close>

lemma ctor_loop_closed:
  "i \<le> n \<Longrightarrow> length (pool s) = n \<Longrightarrow> next_ref s = i \<Longrightarrow>
   ctor_loop i n s =
     s\<lparr>heap := (\<lambda>r. if i \<le> r \<and> r < n then Vector2D 0 0 (Some (int r)) else heap s r),
       next_ref := n,
       pool := take i (pool s) @ map Some [i..<n]\<rparr>"
proof (induction i n s rule: ctor_loop.induct)
  case (1 i n s)
  show ?case
  proof (cases "i < n")
    case False
    with "1.prems" have "i = n" by simp
    have h: "(\<lambda>r. if n \<le> r \<and> r < n then Vector2D 0 0 (Some (int r)) else heap s r) = heap s"
      by (auto simp: fun_eq_iff)
    from \<open>i = n\<close> "1.prems" show ?thesis
      by (subst ctor_loop.simps) (simp add: h)
  next
    case True
    let ?s' = "case alloc s (Vector2D 0 0 (Some (int i))) of (r, s') \<Rightarrow> s'\<lparr>pool := (pool s')[i := Some r]\<rparr>"
    have s': "?s' = s\<lparr>heap := (heap s)(i := Vector2D 0 0 (Some (int i))), next_ref := Suc i,
                      pool := (pool s)[i := Some i]\<rparr>"
      using "1.prems" by (simp add: alloc_def)
    have step: "ctor_loop i n s = ctor_loop (Suc i) n ?s'"
      using True by (subst ctor_loop.simps) simp
    have IH: "ctor_loop (Suc i) n ?s' =
       ?s'\<lparr>heap := (\<lambda>r. if Suc i \<le> r \<and> r < n then Vector2D 0 0 (Some (int r)) else heap ?s' r),
           next_ref := n, pool := take (Suc i) (pool ?s') @ map Some [Suc i..<n]\<rparr>"
      using True "1.prems" by (intro "1.IH") (simp_all add: s')
    have tk: "take (Suc i) ((pool s)[i := Some i]) = take i (pool s) @ [Some i]"
      using True "1.prems" by (simp add: take_Suc_conv_app_nth)
    have up: "[i..<n] = i # [Suc i..<n]" using True by (simp add: upt_conv_Cons)
    show ?thesis
      unfolding step IH unfolding s' using True
      by (auto simp: tk up fun_eq_iff)
  qed
qed

lemma constructor_closed:
  "(constructor n :: ('a::zero) vector_pool) =
     \<lparr>heap = (\<lambda>r. if r < n then Vector2D 0 0 (Some (int r)) else Vector2D 0 0 None),
      next_ref = n, pool = map Some [0..<n], count = 0\<rparr>"
  unfolding constructor_def by (subst ctor_loop_closed) (auto simp: fun_eq_iff)

subsection \<open>What \<open>new\<close> and \<open>clear_index\<close> compute\<close>

lemma arr_get_in: "0 \<le> i \<Longrightarrow> i < int (length xs) \<Longrightarrow> arr_get xs i = xs ! nat i"
  by (simp add: arr_get_def)

lemma vec_set_Vector2D: "vec_set (Vector2D x y i) x y = Vector2D x y i"
  by (simp add: vec_set_def Vector2D_def)

lemma new_push:
  assumes "count s = int (length (pool s))"
  shows "new s x y =
    (Inr (next_ref s),
     s\<lparr>heap := (heap s)(next_ref s := Vector2D x y (Some (count s))),
       next_ref := Suc (next_ref s),
       pool := pool s @ [Some (next_ref s)],
       count := count s + 1\<rparr>)"
  using assms by (simp add: new_def pool_size_def alloc_def arr_get_def Let_def vec_set_Vector2D)

lemma new_reuse:
  assumes "0 \<le> count s" "count s < int (length (pool s))" "pool s ! nat (count s) = Some r"
  shows "new s x y =
    (Inr r, s\<lparr>heap := (heap s)(r := vec_set (heap s r) x y), count := count s + 1\<rparr>)"
  using assms by (simp add: new_def pool_size_def arr_get_def Let_def)

lemma pool_wf_nth: "pool_wf s \<Longrightarrow> i < length (pool s) \<Longrightarrow> \<exists>r. pool s ! i = Some r"
  by (auto simp: pool_wf_def list_all_length)

subsection \<open>The array and the counter after each call\<close>

lemma new_pool_count:
  "count (snd (new s x y)) = count s + 1"
  "pool (snd (new s x y)) =
     (if int (length (pool s)) < count s + 1 then pool s @ [Some (next_ref s)] else pool s)"
  by (simp_all add: new_def Let_def pool_size_def alloc_def split: option.splits)

lemma clone_pool_count:
  "count (snd (clone s v)) = count (snd (new s 0 0))"
  "pool (snd (clone s v)) = pool (snd (new s 0 0))"
  by (simp_all add: clone_def split: prod.splits sum.splits)

lemma fromAngle_pool_count:
  "count (snd (fromAngle cs sn s a)) = count (snd (new s 0 0))"
  "pool (snd (fromAngle cs sn s a)) = pool (snd (new s 0 0))"
  by (simp_all add: fromAngle_def split: prod.splits sum.splits)

lemma fromObservablePoint_pool_count:
  "count (snd (fromObservablePoint s p)) = count (snd (new s 0 0))"
  "pool (snd (fromObservablePoint s p)) = pool (snd (new s 0 0))"
  by (simp_all add: fromObservablePoint_def split: prod.splits sum.splits)

lemma clear_index_length:
  "length (pool (snd (clear_index s index))) = length (pool s)"
  by (simp add: clear_index_def Let_def split: option.splits)

lemma clear_index_count:
  "0 \<le> count s \<Longrightarrow> 0 \<le> count (snd (clear_index s index))"
  "count (snd (clear_index s index)) \<le> count s"
  by (simp_all add: clear_index_def Let_def split: option.splits)

lemma exec_size_mono: "pool_size s \<le> pool_size (exec cs sn s op)"
  by (cases op)
     (simp_all add: pool_size_def new_pool_count clone_pool_count fromAngle_pool_count
        fromObservablePoint_pool_count clear_def clear_index_length)

lemma exec_count_ok: "count_ok s \<Longrightarrow> count_ok (exec cs sn s op)"
proof (cases op)
  case (ClearIndex index)
  assume "count_ok s"
  then show ?thesis
    using clear_index_count [of s index] clear_index_length [of s index]
    by (simp add: ClearIndex count_ok_def pool_size_def)
qed (auto simp: count_ok_def pool_size_def new_pool_count clone_pool_count fromAngle_pool_count
        fromObservablePoint_pool_count clear_def)

lemma run_size_mono: "pool_size s \<le> pool_size (run cs sn s ops)"
proof (induction ops arbitrary: s)
  case Nil
  show ?case by simp
next
  case (Cons op ops)
  have "pool_size s \<le> pool_size (exec cs sn s op)" by (rule exec_size_mono)
  also have "\<dots> \<le> pool_size (run cs sn (exec cs sn s op) ops)" by (rule Cons.IH)
  finally show ?case by simp
qed

lemma run_count_ok: "count_ok s \<Longrightarrow> count_ok (run cs sn s ops)"
  by (induction ops arbitrary: s) (simp_all add: exec_count_ok)

lemma constructor_count_ok: "count_ok (constructor n)"
  by (simp add: constructor_closed count_ok_def pool_size_def)

lemma new_wf_cases:
  assumes "pool_wf s"
  obtains (reuse) r where "count s < int (length (pool s))" "pool s ! nat (count s) = Some r"
      "new s x y = (Inr r, s\<lparr>heap := (heap s)(r := vec_set (heap s r) x y), count := count s + 1\<rparr>)"
  | (push) "count s = int (length (pool s))"
      "new s x y =
        (Inr (next_ref s),
         s\<lparr>heap := (heap s)(next_ref s := Vector2D x y (Some (count s))),
           next_ref := Suc (next_ref s),
           pool := pool s @ [Some (next_ref s)],
           count := count s + 1\<rparr>)"
proof (cases "count s < int (length (pool s))")
  case True
  from assms have c0: "0 \<le> count s" by (simp add: pool_wf_def)
  with True have "nat (count s) < length (pool s)" by simp
  with assms obtain r where r: "pool s ! nat (count s) = Some r"
    using pool_wf_nth by blast
  show ?thesis
    by (rule reuse [OF True r]) (rule new_reuse [OF c0 True r])
next
  case False
  with assms have eq: "count s = int (length (pool s))" by (simp add: pool_wf_def)
  show ?thesis by (rule push [OF eq]) (rule new_push [OF eq])
qed

lemma new_seq_no_growth:
  "count s + int (length ps) \<le> int (pool_size s) \<Longrightarrow> pool_size (new_seq s ps) = pool_size s"
proof (induction ps arbitrary: s)
  case Nil
  show ?case by simp
next
  case (Cons p ps)
  let ?s' = "snd (new s (fst p) (snd p))"
  from Cons.prems have same: "pool ?s' = pool s"
    by (simp add: new_pool_count pool_size_def)
  with Cons.prems have "count ?s' + int (length ps) \<le> int (pool_size ?s')"
    by (simp add: new_pool_count pool_size_def)
  then have "pool_size (new_seq ?s' ps) = pool_size ?s'" by (rule Cons.IH)
  with same show ?case by (simp add: pool_size_def)
qed

lemma clear_index_nonlast:
  assumes "0 \<le> index" "index + 1 < count s" "count s \<le> int (length (pool s))"
    and r0: "pool s ! nat index = Some r0" and r1: "pool s ! nat (count s - 1) = Some r1"
  shows "clear_index s index =
    (None,
     s\<lparr>heap := (heap s)(r0 := (heap s r0)\<lparr>pool_index := None\<rparr>,
                        r1 := (((heap s)(r0 := (heap s r0)\<lparr>pool_index := None\<rparr>)) r1)
                                \<lparr>pool_index := Some index\<rparr>),
       pool := (pool s)[nat index := Some r1],
       count := count s - 1\<rparr>)"
  using assms by (simp add: clear_index_def arr_get_def Let_def)

subsection \<open>Slots that carry their position\<close>

lemma slot_indexed_iff:
  "slot_indexed s i \<longleftrightarrow>
     (\<exists>r. pool s ! i = Some r \<and> r < next_ref s \<and> pool_index (heap s r) = Some (int i))"
  by (cases "pool s ! i") (simp_all add: slot_indexed_def)

lemma slots_indexed_iff:
  "slots_indexed s \<longleftrightarrow>
     0 \<le> count s \<and> count s \<le> int (length (pool s)) \<and>
     (\<forall>i < length (pool s). \<exists>r. pool s ! i = Some r \<and> r < next_ref s \<and>
         pool_index (heap s r) = Some (int i))"
  by (simp add: slots_indexed_def list_all_iff slot_indexed_iff Ball_def)

lemma slots_indexed_wf: "slots_indexed s \<Longrightarrow> pool_wf s"
  by (fastforce simp: slots_indexed_iff pool_wf_def list_all_length)

lemma constructor_slots_indexed: "slots_indexed (constructor n)"
  by (simp add: slots_indexed_iff constructor_closed Vector2D_def)

lemma slots_indexed_heap_upd:
  assumes "slots_indexed s" "pool_index v = pool_index (heap s r)"
  shows "slots_indexed (s\<lparr>heap := (heap s)(r := v)\<rparr>)"
  using assms by (auto simp: slots_indexed_iff)

lemma new_slots_indexed:
  assumes "slots_indexed s"
  shows "\<exists>r s'. new s x y = (Inr r, s') \<and> slots_indexed s'"
proof -
  from assms have wf: "pool_wf s" by (rule slots_indexed_wf)
  then show ?thesis
  proof (cases rule: new_wf_cases [where x = x and y = y])
    case (reuse r)
    let ?s1 = "s\<lparr>heap := (heap s)(r := vec_set (heap s r) x y)\<rparr>"
    have "slots_indexed ?s1"
      by (rule slots_indexed_heap_upd [OF assms]) (simp add: vec_set_def)
    with reuse(1) have "slots_indexed (?s1\<lparr>count := count s + 1\<rparr>)"
      by (simp add: slots_indexed_iff)
    with reuse(3) show ?thesis by simp
  next
    case push
    let ?s' = "s\<lparr>heap := (heap s)(next_ref s := Vector2D x y (Some (count s))),
           next_ref := Suc (next_ref s),
           pool := pool s @ [Some (next_ref s)],
           count := count s + 1\<rparr>"
    have "\<exists>r. pool ?s' ! i = Some r \<and> r < next_ref ?s' \<and>
            pool_index (heap ?s' r) = Some (int i)" if i: "i < length (pool ?s')" for i
    proof (cases "i < length (pool s)")
      case True
      with assms obtain r where r: "pool s ! i = Some r" "r < next_ref s"
          "pool_index (heap s r) = Some (int i)"
        by (auto simp: slots_indexed_iff)
      with True show ?thesis by (simp add: nth_append)
    next
      case False
      with i have "i = length (pool s)" by simp
      with push(1) show ?thesis by (simp add: nth_append Vector2D_def)
    qed
    with assms push(1) have "slots_indexed ?s'"
      unfolding slots_indexed_iff [of ?s'] by (simp add: slots_indexed_iff [of s])
    with push(2) show ?thesis by simp
  qed
qed

lemma clone_slots_indexed:
  assumes "slots_indexed s"
  shows "slots_indexed (snd (clone s v))"
proof -
  from new_slots_indexed [OF assms, of 0 0]
  obtain r s' where n: "new s 0 0 = (Inr r, s')" and s': "slots_indexed s'" by blast
  have "slots_indexed (s'\<lparr>heap := (heap s')(r := vec_copy (heap s' r) (heap s' v))\<rparr>)"
    by (rule slots_indexed_heap_upd [OF s']) (simp add: vec_copy_def)
  with n show ?thesis by (simp add: clone_def)
qed

lemma fromAngle_slots_indexed:
  assumes "slots_indexed s"
  shows "slots_indexed (snd (fromAngle cs sn s a))"
proof -
  from new_slots_indexed [OF assms, of 0 0]
  obtain r s' where n: "new s 0 0 = (Inr r, s')" and s': "slots_indexed s'" by blast
  have "slots_indexed (s'\<lparr>heap := (heap s')(r := vec_fromAngle cs sn (heap s' r) a)\<rparr>)"
    by (rule slots_indexed_heap_upd [OF s']) (simp add: vec_fromAngle_def)
  with n show ?thesis by (simp add: fromAngle_def)
qed

lemma fromObservablePoint_slots_indexed:
  assumes "slots_indexed s"
  shows "slots_indexed (snd (fromObservablePoint s p))"
proof -
  from new_slots_indexed [OF assms, of 0 0]
  obtain r s' where n: "new s 0 0 = (Inr r, s')" and s': "slots_indexed s'" by blast
  have "slots_indexed (s'\<lparr>heap := (heap s')(r := vec_fromObservablePoint (heap s' r) p)\<rparr>)"
    by (rule slots_indexed_heap_upd [OF s']) (simp add: vec_fromObservablePoint_def)
  with n show ?thesis by (simp add: fromObservablePoint_def)
qed

lemma clear_slots_indexed: "slots_indexed s \<Longrightarrow> slots_indexed (clear s)"
  by (simp add: slots_indexed_iff clear_def)

lemma clear_index_other_slots_indexed:
  assumes "slots_indexed s" "\<not> (0 \<le> index \<and> index + 1 < count s)"
  shows "slots_indexed (snd (clear_index s index))"
  using assms by (auto simp: clear_index_def slots_indexed_iff)

lemma slots_indexed_slot_index:
  assumes "slots_indexed s" "0 \<le> i" "i < int (pool_size s)"
  shows "slot_index s i = Some (Some i)"
proof -
  from assms(2,3) have "nat i < length (pool s)" by (simp add: pool_size_def)
  with assms(1) obtain r where "pool s ! nat i = Some r" "pool_index (heap s r) = Some (int (nat i))"
    by (auto simp: slots_indexed_iff)
  with assms(2,3) show ?thesis
    by (simp add: slot_index_def slot_at_def arr_get_def pool_size_def)
qed

subsection \<open>Every reachable state is well formed\<close>

lemma pool_wf_cong: "pool s' = pool s \<Longrightarrow> count s' = count s \<Longrightarrow> pool_wf s' = pool_wf s"
  by (simp add: pool_wf_def)

lemma new_pool_wf: "pool_wf s \<Longrightarrow> pool_wf (snd (new s x y))"
  by (simp add: pool_wf_def new_pool_count)

lemma clear_index_pool_wf:
  assumes "pool_wf s"
  shows "pool_wf (snd (clear_index s index))"
proof (cases "0 \<le> index \<and> index + 1 < count s")
  case True
  from assms have len: "count s \<le> int (length (pool s))" by (simp add: pool_wf_def)
  with True have i: "nat index < length (pool s)" and l: "nat (count s - 1) < length (pool s)"
    by linarith+
  from assms i obtain r0 where r0: "pool s ! nat index = Some r0"
    using pool_wf_nth by blast
  from assms l obtain r1 where r1: "pool s ! nat (count s - 1) = Some r1"
    using pool_wf_nth by blast
  from True have t1: "0 \<le> index" and t2: "index + 1 < count s" by simp_all
  have "list_all (\<lambda>e. e \<noteq> None) ((pool s)[nat index := Some r1])"
    unfolding list_all_length
  proof (intro allI impI)
    fix k assume "k < length ((pool s)[nat index := Some r1])"
    with assms show "(pool s)[nat index := Some r1] ! k \<noteq> None"
      by (cases "k = nat index") (simp_all add: pool_wf_def list_all_length)
  qed
  with assms True show ?thesis
    by (simp add: clear_index_nonlast [OF t1 t2 len r0 r1] pool_wf_def)
next
  case False
  with assms show ?thesis
    by (auto simp: clear_index_def pool_wf_def)
qed

lemma exec_pool_wf: "pool_wf s \<Longrightarrow> pool_wf (exec cs sn s op)"
proof (cases op)
  case (ClearIndex index)
  assume "pool_wf s"
  then show ?thesis by (simp add: ClearIndex clear_index_pool_wf)
next
  case Clear
  assume "pool_wf s"
  then show ?thesis by (simp add: Clear clear_def pool_wf_def)
qed (simp_all add: new_pool_wf
       pool_wf_cong [OF clone_pool_count(2) clone_pool_count(1)]
       pool_wf_cong [OF fromAngle_pool_count(2) fromAngle_pool_count(1)]
       pool_wf_cong [OF fromObservablePoint_pool_count(2) fromObservablePoint_pool_count(1)])

lemma constructor_pool_wf: "pool_wf (constructor n)"
  by (simp add: constructor_slots_indexed slots_indexed_wf)

lemma run_pool_wf: "pool_wf s \<Longrightarrow> pool_wf (run cs sn s ops)"
  by (induction ops arbitrary: s) (simp_all add: exec_pool_wf)

lemma reachable_pool_wf: "pool_wf (run cs sn (constructor n) ops)"
  by (rule run_pool_wf [OF constructor_pool_wf])

subsection \<open>Cloning while no two positions share an object\<close>

lemma slots_indexed_distinct:
  assumes "slots_indexed s" "i < length (pool s)" "j < length (pool s)" "pool s ! i = pool s ! j"
  shows "i = j"
proof -
  from assms(1,2) obtain r where r: "pool s ! i = Some r" "pool_index (heap s r) = Some (int i)"
    by (auto simp: slots_indexed_iff)
  from assms(1,3) obtain r' where r': "pool s ! j = Some r'" "pool_index (heap s r') = Some (int j)"
    by (auto simp: slots_indexed_iff)
  from r r' assms(4) show ?thesis by simp
qed

lemma clone_of_live_vector_when_indexed:
  assumes ind: "slots_indexed s" and live: "0 \<le> i" "i < count s"
    and v: "arr_get (pool s) i = Some v"
  shows "\<exists>r s'. clone s v = (Inr r, s') \<and> r \<noteq> v \<and>
           vx (heap s' r) = vx (heap s v) \<and> vy (heap s' r) = vy (heap s v) \<and>
           heap s' v = heap s v"
proof -
  from ind have wf: "pool_wf s" by (rule slots_indexed_wf)
  from ind have "count s \<le> int (length (pool s))" by (simp add: slots_indexed_iff)
  with live have il: "nat i < length (pool s)" by linarith
  with v live have pv: "pool s ! nat i = Some v" by (simp add: arr_get_def split: if_splits)
  from ind il pv have vn: "v < next_ref s" by (auto simp: slots_indexed_iff)
  from wf show ?thesis
  proof (cases rule: new_wf_cases [where x = 0 and y = 0])
    case (reuse r)
    from ind have "0 \<le> count s" by (simp add: slots_indexed_iff)
    with reuse(1) have cl: "nat (count s) < length (pool s)" by simp
    have "r \<noteq> v"
    proof
      assume "r = v"
      with reuse(2) pv have "pool s ! nat i = pool s ! nat (count s)" by simp
      from slots_indexed_distinct [OF ind il cl this] live show False by simp
    qed
    with reuse(3) show ?thesis by (simp add: clone_def vec_copy_def)
  next
    case push
    with vn show ?thesis by (simp add: clone_def vec_copy_def)
  qed
qed

subsection \<open>Live slots after a release that is not the last one\<close>

lemma clear_index_nonlast_live_slots:
  assumes ind: "slots_indexed s" and idx: "0 \<le> released" "released + 1 < count s"
    and j: "0 \<le> j" "j < count s - 1"
  shows "fst (clear_index s released) = None \<and>
         count (snd (clear_index s released)) = count s - 1 \<and>
         slot_index (snd (clear_index s released)) j = Some (Some j)"
proof -
  from ind have len: "count s \<le> int (length (pool s))" by (simp add: slots_indexed_iff)
  with idx have i: "nat released < length (pool s)" and l: "nat (count s - 1) < length (pool s)"
    by linarith+
  from j len have jl: "nat j < length (pool s)" by linarith
  from ind i obtain r0 where r0: "pool s ! nat released = Some r0"
      and x0: "pool_index (heap s r0) = Some (int (nat released))"
    by (auto simp: slots_indexed_iff)
  from ind l obtain r1 where r1: "pool s ! nat (count s - 1) = Some r1"
      and x1: "pool_index (heap s r1) = Some (int (nat (count s - 1)))"
    by (auto simp: slots_indexed_iff)
  from ind jl obtain r where r: "pool s ! nat j = Some r"
      and x: "pool_index (heap s r) = Some (int (nat j))"
    by (auto simp: slots_indexed_iff)
  define h' where "h' = (heap s)(r0 := (heap s r0)\<lparr>pool_index := None\<rparr>,
                        r1 := (((heap s)(r0 := (heap s r0)\<lparr>pool_index := None\<rparr>)) r1)
                                \<lparr>pool_index := Some released\<rparr>)"
  have ci: "clear_index s released =
      (None, s\<lparr>heap := h', pool := (pool s)[nat released := Some r1], count := count s - 1\<rparr>)"
    unfolding h'_def by (rule clear_index_nonlast [OF idx len r0 r1])
  have "pool_index (h' (the (((pool s)[nat released := Some r1]) ! nat j))) = Some j"
  proof (cases "j = released")
    case True
    with i show ?thesis by (simp add: h'_def)
  next
    case False
    with j idx have ne: "nat released \<noteq> nat j" by simp
    from j idx have ne1: "nat (count s - 1) \<noteq> nat j" by simp
    have "r \<noteq> r0"
    proof
      assume "r = r0"
      with x x0 ne show False by (simp del: int_nat_eq)
    qed
    moreover have "r \<noteq> r1"
    proof
      assume "r = r1"
      with x x1 ne1 show False by (simp del: int_nat_eq)
    qed
    ultimately show ?thesis using ne r x j by (simp add: h'_def)
  qed
  moreover have "((pool s)[nat released := Some r1]) ! nat j \<noteq> None"
    using i jl r by (cases "nat j = nat released") simp_all
  ultimately have "slot_index (s\<lparr>heap := h', pool := (pool s)[nat released := Some r1],
                     count := count s - 1\<rparr>) j = Some (Some j)"
    using j jl by (auto simp: slot_index_def slot_at_def arr_get_def)
  with ci show ?thesis by simp
qed

section \<open>The properties of the specification\<close>

lemmas pool_eval =
  constructor_closed new_def clear_index_def clone_def arr_get_def alloc_def pool_size_def
  Let_def vec_set_def vec_copy_def Vector2D_def slot_at_def slot_index_def
  pool2_two_live_def pool2_released_def pool2_realloc_def

subsection \<open>C1: releasing from an empty pool\<close>

text \<open>
  Claim C1 says that \<^verbatim>\<open>clear_index\<close> on a pool with \<open>count = 0\<close> fails with the
  empty-pool error, for every index. The code tests the range of the index first: with
  \<open>count = 0\<close> every integer index is below 0 or at least \<open>count\<close>, so the call throws
  \<^verbatim>\<open>'Index out of bound'\<close> and the test \<^verbatim>\<open>this._count == 0\<close>, which would throw
  \<^verbatim>\<open>'Pool is already cleared'\<close>, is not reached for any integer index. The theorem states
  what the code does on an empty pool: the error is the out-of-range one, and the state
  is unchanged.
\<close>

theorem clear_index_empty_pool:
  "count s = 0 \<Longrightarrow> clear_index s index = (Some IndexOutOfBound, s)"
  by (auto simp add: clear_index_def)

theorem clear_index_empty_pool_witness:
  "count (constructor 2 :: int vector_pool) = 0 \<and>
   clear_index (constructor 2 :: int vector_pool) 0 = (Some IndexOutOfBound, constructor 2)"
proof -
  have h: "count (constructor 2 :: int vector_pool) = 0" by (simp add: constructor_closed)
  from h clear_index_empty_pool [OF h, of 0] show ?thesis by simp
qed

subsection \<open>C2: the back-reference of every slot\<close>

text \<open>
  Claim C2 says that after every operation a live slot carries its array position in
  \<^verbatim>\<open>_pool_index\<close> and a free slot has \<^verbatim>\<open>_pool_index\<close> unset. As stated it fails: the
  constructor gives every slot its position although all of them are free (first two
  conjuncts, for \<^verbatim>\<open>new VectorPool(1)\<close>), and after \<^verbatim>\<open>clear_index\<close> on an index that is not
  the last active one, the next \<^verbatim>\<open>new\<close> makes position 1 live again with the object that
  carries position 0 (last two conjuncts, for the scenario above).
\<close>

theorem slot_index_claim_counterexample:
  "count (constructor 1 :: int vector_pool) = 0 \<and>
   slot_index (constructor 1 :: int vector_pool) 0 = Some (Some 0) \<and>
   count pool2_realloc = 2 \<and>
   slot_index pool2_realloc 1 = Some (Some 0)"
  by (simp add: pool_eval upt_rec)

text \<open>
  Claim C2 as amended: after the constructor, and after \<^verbatim>\<open>new\<close>, \<^verbatim>\<open>clone\<close>, \<^verbatim>\<open>fromAngle\<close>,
  \<^verbatim>\<open>fromObservablePoint\<close>, \<^verbatim>\<open>clear\<close> and any \<^verbatim>\<open>clear_index\<close> call other than a successful one
  on an index that is not the last active one, made on a pool in which every slot carries
  its position, every slot of the array, live or free, carries its array position in
  \<^verbatim>\<open>_pool_index\<close> (free slots are not unset). After a successful \<^verbatim>\<open>clear_index\<close> call on an
  index that is not the last active one (\<open>0 \<le> index\<close> and \<open>index + 1 < count\<close>), made on
  such a pool, every live slot, that is every position below the new counter, still
  carries its array position; what the free slots hold after that call is not part of
  the statement.
\<close>

theorem every_slot_carries_its_position:
  "slots_indexed (constructor n :: ('a::zero) vector_pool) \<and>
   (slots_indexed (s :: 'a vector_pool) \<longrightarrow>
      slots_indexed (snd (new s x y)) \<and>
      slots_indexed (snd (clone s v)) \<and>
      slots_indexed (snd (fromAngle cs sn s a)) \<and>
      slots_indexed (snd (fromObservablePoint s p)) \<and>
      slots_indexed (clear s) \<and>
      (\<not> (0 \<le> index \<and> index + 1 < count s) \<longrightarrow> slots_indexed (snd (clear_index s index))) \<and>
      (0 \<le> i \<and> i < int (pool_size s) \<longrightarrow> slot_index s i = Some (Some i)) \<and>
      (0 \<le> released \<and> released + 1 < count s \<and> 0 \<le> j \<and> j < count s - 1 \<longrightarrow>
         fst (clear_index s released) = None \<and>
         count (snd (clear_index s released)) = count s - 1 \<and>
         slot_index (snd (clear_index s released)) j = Some (Some j)))"
proof (intro conjI impI)
  show "slots_indexed (constructor n :: 'a vector_pool)" by (rule constructor_slots_indexed)
next
  assume a: "slots_indexed s"
  from new_slots_indexed [OF a, of x y] show "slots_indexed (snd (new s x y))" by auto
  show "slots_indexed (snd (clone s v))" by (rule clone_slots_indexed [OF a])
  show "slots_indexed (snd (fromAngle cs sn s a))" by (rule fromAngle_slots_indexed [OF a])
  show "slots_indexed (snd (fromObservablePoint s p))"
    by (rule fromObservablePoint_slots_indexed [OF a])
  show "slots_indexed (clear s)" by (rule clear_slots_indexed [OF a])
  { assume "\<not> (0 \<le> index \<and> index + 1 < count s)"
    with a show "slots_indexed (snd (clear_index s index))"
      by (rule clear_index_other_slots_indexed) }
  { assume "0 \<le> i \<and> i < int (pool_size s)"
    with a show "slot_index s i = Some (Some i)"
      by (simp add: slots_indexed_slot_index) }
  { assume b: "0 \<le> released \<and> released + 1 < count s \<and> 0 \<le> j \<and> j < count s - 1"
    then have b1: "0 \<le> released" and b2: "released + 1 < count s"
      and b3: "0 \<le> j" and b4: "j < count s - 1" by simp_all
    from clear_index_nonlast_live_slots [OF a b1 b2 b3 b4]
    show "fst (clear_index s released) = None"
      and "count (snd (clear_index s released)) = count s - 1"
      and "slot_index (snd (clear_index s released)) j = Some (Some j)" by simp_all }
qed

theorem every_slot_carries_its_position_witness:
  "slots_indexed pool2_two_live \<and>
   slots_indexed (snd (new pool2_two_live 3 3)) \<and>
   slots_indexed (snd (clone pool2_two_live 0)) \<and>
   slots_indexed (snd (fromAngle (\<lambda>a. a) (\<lambda>a. a) pool2_two_live 0)) \<and>
   slots_indexed (snd (fromObservablePoint pool2_two_live (5, 6))) \<and>
   slots_indexed (clear pool2_two_live) \<and>
   \<not> (0 \<le> (1::int) \<and> 1 + 1 < count pool2_two_live) \<and>
   slots_indexed (snd (clear_index pool2_two_live 1)) \<and>
   (0 \<le> (1::int) \<and> 1 < int (pool_size pool2_two_live)) \<and>
   slot_index pool2_two_live 1 = Some (Some 1) \<and>
   ((0::int) \<le> 0 \<and> 0 + 1 < count pool2_two_live \<and> (0::int) \<le> 0 \<and> 0 < count pool2_two_live - 1) \<and>
   fst (clear_index pool2_two_live 0) = None \<and>
   count (snd (clear_index pool2_two_live 0)) = count pool2_two_live - 1 \<and>
   slot_index (snd (clear_index pool2_two_live 0)) 0 = Some (Some 0)"
proof -
  have h: "slots_indexed pool2_two_live"
    by (simp add: slots_indexed_def slot_indexed_def pool_eval upt_rec)
  have c: "count pool2_two_live = 2" and l: "pool_size pool2_two_live = 2"
    by (simp_all add: pool_eval upt_rec)
  from every_slot_carries_its_position
         [of 2 pool2_two_live 3 3 0 "\<lambda>a. a" "\<lambda>a. a" 0 "(5, 6)" 1 1 0 0] h c l
  show ?thesis by simp
qed

subsection \<open>C3: releasing a slot that is not the last active one\<close>

text \<open>
  Claim C3 says that \<^verbatim>\<open>clear_index(index)\<close> with \<open>index + 1 < count\<close> swaps the slot at
  \<open>index\<close> with the last active one and clears the \<^verbatim>\<open>_pool_index\<close> of the slot that moved
  out. The code stores the reference of the last active slot at \<open>index\<close> and leaves it at
  position \<open>count - 1\<close> as well, so the two positions hold one object and the object that
  was at \<open>index\<close> is in the array no more. In the scenario: after the first release both
  positions hold object 1 and object 0 is dropped; after \<^verbatim>\<open>new(3, 3)\<close> both live positions
  are object 1, and releasing index 0 again moves object 1 out of position 0, whose
  \<^verbatim>\<open>_pool_index\<close> ends as 0 and not unset.
\<close>

theorem clear_index_aliases_instead_of_swapping:
  "fst (clear_index pool2_two_live 0) = None \<and>
   pool pool2_released = [Some 1, Some 1] \<and>
   count pool2_released = 1 \<and>
   heap pool2_released 0 = Vector2D 1 1 None \<and>
   heap pool2_released 1 = Vector2D 2 2 (Some 0) \<and>
   count pool2_realloc = 2 \<and>
   arr_get (pool pool2_realloc) 0 = Some 1 \<and>
   fst (clear_index pool2_realloc 0) = None \<and>
   count (snd (clear_index pool2_realloc 0)) = 1 \<and>
   heap (snd (clear_index pool2_realloc 0)) 1 = Vector2D 3 3 (Some 0)"
  by (simp add: pool_eval upt_rec)

subsection \<open>C4: the next \<open>new\<close> after such a release\<close>

text \<open>
  Claim C4: after \<^verbatim>\<open>clear_index(index)\<close> with \<open>0 \<le> index\<close> and \<open>index + 1 < count\<close> on a
  well-formed pool, the array holds one and the same object at position \<open>index\<close> and at
  the old last position \<open>count - 1\<close>; the next \<^verbatim>\<open>new(x, y)\<close> returns that object, so the
  live vector at position \<open>index\<close> then reads \<open>(x, y)\<close>.
\<close>

theorem new_after_clear_index_aliases_live_slot:
  assumes "pool_wf s" "0 \<le> index" "index + 1 < count s"
  shows "\<exists>r s1 s2. clear_index s index = (None, s1) \<and>
           arr_get (pool s1) index = Some r \<and> arr_get (pool s1) (count s - 1) = Some r \<and>
           new s1 x y = (Inr r, s2) \<and>
           index < count s2 - 1 \<and> arr_get (pool s2) index = Some r \<and>
           slot_at s2 index = Some (heap s2 r) \<and> vx (heap s2 r) = x \<and> vy (heap s2 r) = y"
proof -
  from assms have len: "count s \<le> int (length (pool s))" by (simp add: pool_wf_def)
  with assms have i: "nat index < length (pool s)" and l: "nat (count s - 1) < length (pool s)"
    by simp_all
  from assms(1) i obtain r0 where r0: "pool s ! nat index = Some r0"
    using pool_wf_nth by blast
  from assms(1) l obtain r1 where r1: "pool s ! nat (count s - 1) = Some r1"
    using pool_wf_nth by blast
  define s1 where "s1 = s\<lparr>heap := (heap s)(r0 := (heap s r0)\<lparr>pool_index := None\<rparr>,
                        r1 := (((heap s)(r0 := (heap s r0)\<lparr>pool_index := None\<rparr>)) r1)
                                \<lparr>pool_index := Some index\<rparr>),
       pool := (pool s)[nat index := Some r1],
       count := count s - 1\<rparr>"
  have ci: "clear_index s index = (None, s1)"
    unfolding s1_def by (rule clear_index_nonlast [OF assms(2,3) len r0 r1])
  have ne: "nat index \<noteq> nat (count s - 1)" using assms by simp
  have p1: "pool s1 = (pool s)[nat index := Some r1]" and c1: "count s1 = count s - 1"
    by (simp_all add: s1_def)
  have a1: "arr_get (pool s1) index = Some r1"
    using assms(2) i by (simp add: p1 arr_get_def)
  have a2: "arr_get (pool s1) (count s - 1) = Some r1"
    using assms(2,3) l ne r1 by (simp add: p1 arr_get_def)
  have l1: "pool s1 ! nat (count s1) = Some r1"
    using ne r1 by (simp add: p1 c1)
  define s2 where "s2 = s1\<lparr>heap := (heap s1)(r1 := vec_set (heap s1 r1) x y), count := count s1 + 1\<rparr>"
  have nw: "new s1 x y = (Inr r1, s2)"
    unfolding s2_def using assms(2,3) len
    by (intro new_reuse l1) (simp_all add: c1 p1)
  have p2: "pool s2 = pool s1" and c2: "count s2 = count s" by (simp_all add: s2_def c1)
  have "slot_at s2 index = Some (heap s2 r1)" by (simp add: slot_at_def p2 a1)
  moreover have "vx (heap s2 r1) = x \<and> vy (heap s2 r1) = y" by (simp add: s2_def vec_set_def)
  ultimately show ?thesis
    using ci a1 a2 nw assms(3) by (simp add: p2 c2)
qed

theorem new_after_clear_index_aliases_live_slot_witness:
  "pool_wf pool2_two_live \<and> (0::int) \<le> 0 \<and> 0 + 1 < count pool2_two_live \<and>
   (\<exists>r s1 s2. clear_index pool2_two_live 0 = (None, s1) \<and>
      arr_get (pool s1) 0 = Some r \<and> arr_get (pool s1) (count pool2_two_live - 1) = Some r \<and>
      new s1 7 8 = (Inr r, s2) \<and>
      0 < count s2 - 1 \<and> arr_get (pool s2) 0 = Some r \<and>
      slot_at s2 0 = Some (heap s2 r) \<and> vx (heap s2 r) = 7 \<and> vy (heap s2 r) = 8)"
proof -
  have h1: "pool_wf pool2_two_live" by (simp add: pool_wf_def pool_eval upt_rec)
  have h2: "(0::int) \<le> 0" by simp
  have h3: "0 + 1 < count pool2_two_live" by (simp add: pool_eval upt_rec)
  from new_after_clear_index_aliases_live_slot [OF h1 h2 h3, of 7 8] h1 h3
  show ?thesis by blast
qed

subsection \<open>C5: cloning a live vector\<close>

text \<open>
  Claim C5 says that \<^verbatim>\<open>clone(v)\<close> of a live vector returns a vector with the components of
  \<open>v\<close> in a slot distinct from \<open>v\<close>. After a release that left one object at two positions
  the code breaks this: in \<open>pool2_released\<close> object 1 is live at position 0 with components
  \<open>(2, 2)\<close> and is also the object of the free position 1, so \<^verbatim>\<open>clone\<close> of it takes
  position 1, resets the object to \<open>(0, 0)\<close>, copies it onto itself and returns it: the
  result is \<open>v\<close> itself and \<open>v\<close> has lost its components. (Where every slot carries its
  position the claim holds: lemma \<open>clone_of_live_vector_when_indexed\<close>.)
\<close>

theorem clone_after_clear_index_returns_its_source:
  "count pool2_released = 1 \<and>
   arr_get (pool pool2_released) 0 = Some 1 \<and>
   heap pool2_released 1 = Vector2D 2 2 (Some 0) \<and>
   fst (clone pool2_released 1) = Inr 1 \<and>
   heap (snd (clone pool2_released 1)) 1 = Vector2D 0 0 (Some 0)"
  by (simp add: pool_eval upt_rec)

subsection \<open>C6: growth of the array\<close>

text \<open>
  Claim C6: a sequence of \<^verbatim>\<open>new\<close> calls that keeps the counter within the size of the
  array (\<open>count + number of calls \<le> size\<close>) leaves the size unchanged; a \<^verbatim>\<open>new\<close> call made
  when \<open>count = size\<close> makes the array longer by exactly one element.
\<close>

theorem new_grows_by_one_only_when_full:
  "(count s + int (length ps) \<le> int (pool_size s) \<longrightarrow> pool_size (new_seq s ps) = pool_size s) \<and>
   (count s = int (pool_size s) \<longrightarrow> pool_size (snd (new s x y)) = pool_size s + 1)"
proof (intro conjI impI)
  assume "count s + int (length ps) \<le> int (pool_size s)"
  then show "pool_size (new_seq s ps) = pool_size s" by (rule new_seq_no_growth)
next
  assume "count s = int (pool_size s)"
  then show "pool_size (snd (new s x y)) = pool_size s + 1"
    by (simp add: new_pool_count pool_size_def)
qed

theorem new_grows_by_one_only_when_full_witness:
  "count (constructor 2 :: int vector_pool) + int (length [(1, 1), (2, 2 :: int)])
     \<le> int (pool_size (constructor 2 :: int vector_pool)) \<and>
   pool_size (new_seq (constructor 2 :: int vector_pool) [(1, 1), (2, 2)]) =
     pool_size (constructor 2 :: int vector_pool) \<and>
   count pool2_two_live = int (pool_size pool2_two_live) \<and>
   pool_size (snd (new pool2_two_live 3 3)) = pool_size pool2_two_live + 1"
proof -
  have h1: "count (constructor 2 :: int vector_pool) + int (length [(1, 1), (2, 2 :: int)])
     \<le> int (pool_size (constructor 2 :: int vector_pool))"
    by (simp add: constructor_closed pool_size_def)
  have h2: "count pool2_two_live = int (pool_size pool2_two_live)"
    by (simp add: pool_eval upt_rec)
  from new_grows_by_one_only_when_full [of "constructor 2" "[(1, 1), (2, 2)]" 0 0] h1
  have "pool_size (new_seq (constructor 2 :: int vector_pool) [(1, 1), (2, 2)]) =
     pool_size (constructor 2 :: int vector_pool)" by blast
  moreover from new_grows_by_one_only_when_full [of pool2_two_live "[]" 3 3] h2
  have "pool_size (snd (new pool2_two_live 3 3)) = pool_size pool2_two_live + 1" by blast
  ultimately show ?thesis using h1 h2 by blast
qed

subsection \<open>C7: \<open>clear\<close>\<close>

text \<open>
  Claim C7: \<^verbatim>\<open>clear()\<close> sets the counter to 0 and changes nothing else: the array (so
  its length, the capacity) and the store (so the components of every slot) are as
  before, and each position reads the same object with the same fields.
\<close>

theorem clear_resets_count_only:
  "count (clear s) = 0 \<and> pool_size (clear s) = pool_size s \<and>
   pool (clear s) = pool s \<and> heap (clear s) = heap s \<and>
   slot_at (clear s) i = slot_at s i"
  by (simp add: clear_def pool_size_def slot_at_def split: option.splits)

subsection \<open>C8: \<open>new\<close>\<close>

text \<open>
  Claim C8: on every well-formed pool, \<^verbatim>\<open>new(x, y)\<close> returns a reference (it does not
  throw), the counter has grown by exactly one, and the returned object reads \<open>(x, y)\<close>.
  Every state that the constructor and the operations produce is well formed
  (lemma \<open>reachable_pool_wf\<close>).
\<close>

theorem new_increments_and_returns_components:
  assumes "pool_wf s"
  shows "\<exists>r s'. new s x y = (Inr r, s') \<and> count s' = count s + 1 \<and>
           vx (heap s' r) = x \<and> vy (heap s' r) = y"
  using assms
proof (cases rule: new_wf_cases [where x = x and y = y])
  case (reuse r)
  then show ?thesis by (simp add: vec_set_def)
next
  case push
  then show ?thesis by (simp add: Vector2D_def)
qed

theorem new_increments_and_returns_components_witness:
  "pool_wf pool2_released \<and>
   (\<exists>r s'. new pool2_released 3 4 = (Inr r, s') \<and> count s' = count pool2_released + 1 \<and>
      vx (heap s' r) = 3 \<and> vy (heap s' r) = 4)"
proof -
  have h: "pool_wf pool2_released" by (simp add: pool_wf_def pool_eval upt_rec)
  from new_increments_and_returns_components [OF h, of 3 4] h show ?thesis by blast
qed

subsection \<open>C9: an index out of range\<close>

text \<open>
  Claim C9: \<^verbatim>\<open>clear_index(index)\<close> with \<open>index < 0\<close> or \<open>index \<ge> count\<close> throws the
  out-of-range error and leaves the state as it was.
\<close>

theorem clear_index_out_of_range:
  "index < 0 \<or> index \<ge> count s \<Longrightarrow> clear_index s index = (Some IndexOutOfBound, s)"
  by (simp add: clear_index_def)

theorem clear_index_out_of_range_witness:
  "((- 1 :: int) < 0 \<or> - 1 \<ge> count pool2_two_live) \<and>
   clear_index pool2_two_live (- 1) = (Some IndexOutOfBound, pool2_two_live) \<and>
   ((2 :: int) < 0 \<or> 2 \<ge> count pool2_two_live) \<and>
   clear_index pool2_two_live 2 = (Some IndexOutOfBound, pool2_two_live)"
proof -
  have h1: "(- 1 :: int) < 0 \<or> - 1 \<ge> count pool2_two_live" by simp
  have h2: "(2 :: int) < 0 \<or> 2 \<ge> count pool2_two_live" by (simp add: pool_eval upt_rec)
  from clear_index_out_of_range [OF h1] clear_index_out_of_range [OF h2] h1 h2
  show ?thesis by blast
qed

subsection \<open>C10: the counter and the capacity\<close>

text \<open>
  Claim C10: in every state that the constructor and any sequence of operations produce,
  \<open>0 \<le> count \<le> size\<close>; and no operation, on any state, makes the array shorter, so the
  capacity never decreases along a sequence of operations.
\<close>

theorem count_within_capacity_and_capacity_monotone:
  "0 \<le> count (run cs sn (constructor n) ops) \<and>
   count (run cs sn (constructor n) ops) \<le> int (pool_size (run cs sn (constructor n) ops)) \<and>
   pool_size s \<le> pool_size (exec cs sn s op) \<and>
   pool_size s \<le> pool_size (run cs sn s ops)"
  using run_count_ok [OF constructor_count_ok, of cs sn n ops]
  by (simp add: count_ok_def exec_size_mono run_size_mono)

end
